theory Spec2Isabelle
  imports Main "HOL-Library.Word" "HOL-Library.Signed_Division"
begin

section \<open>The bounded circular buffer \<open>ThreadSafeCircularBuffer\<close>\<close>

text \<open>
  The class keeps an array \<open>int buffer[BUFFER_SIZE]\<close>, three \<open>int\<close> fields \<open>in\<close>,
  \<open>out\<close>, \<open>count\<close> and a flag \<open>closed\<close>. Every member function takes the mutex
  \<open>mtx\<close> first and reads or writes the fields only while it holds it, so each call acts
  on the fields in one atomic step. The model is that step: a function from the fields
  before the critical section to the result and the fields after it.

  A C++ \<open>int\<close> is a 32-bit word read as two's complement (\<open>sint\<close>); comparisons are the
  signed ones and \<open>%\<close> truncates towards zero.
\<close>

subsection \<open>Machine integers\<close>

type_synonym cint = "32 word"
type_synonym csize = "64 word"

definition BUFFER_SIZE :: cint where
  "BUFFER_SIZE = 5"

definition INT_MIN :: cint where
  "INT_MIN = - (2 ^ 31)"

text \<open>The operator \<open>%\<close> on \<open>int\<close>: the remainder has the sign of the dividend.\<close>

definition c_mod :: "cint \<Rightarrow> cint \<Rightarrow> cint" where
  "c_mod a b = word_of_int (sint a smod sint b)"

subsection \<open>The fields\<close>

text \<open>
  \<open>in_idx\<close> is the field \<open>in\<close> (a reserved word here). The mutex and the two
  condition variables hold no data of the queue; what they do is the atomicity of the
  steps below and the outcome \<open>Suspended\<close>.
\<close>

record cbuf =
  buffer :: "cint list"
  in_idx :: cint
  out :: cint
  count :: cint
  closed :: bool

text \<open>
  What a call does at a given state:
  \<^item> \<open>Suspended\<close>: the predicate of its \<open>wait\<close> is false, so the caller releases the
    mutex and sleeps; the fields are as before and the call has not returned;
  \<^item> \<open>Undefined\<close>: the body would index \<open>buffer\<close> outside \<open>0..BUFFER_SIZE-1\<close> or
    overflow a signed integer, for which C++ defines no behaviour;
  \<^item> \<open>Returned x\<close>: the call returns, with \<open>x\<close> the result and the fields after it.
\<close>

datatype 'a outcome = Suspended | Undefined | Returned 'a

subsection \<open>Construction\<close>

text \<open>
  The class has no user-written constructor and takes no argument: \<open>in\<close>, \<open>out\<close>,
  \<open>count\<close> and \<open>closed\<close> have default member initialisers, the array has none, so
  its five cells start with whatever the memory held. That content is the parameter
  \<open>mem\<close>, a function from the cell's index.
\<close>

definition ThreadSafeCircularBuffer :: "(nat \<Rightarrow> cint) \<Rightarrow> cbuf" where
  "ThreadSafeCircularBuffer mem =
     \<lparr>buffer = map mem [0..<nat (sint BUFFER_SIZE)],
      in_idx = 0, out = 0, count = 0, closed = False\<rparr>"

subsection \<open>The member functions\<close>

text \<open>
  \<open>push\<close>: \<open>not_full.wait(lock, [this] { return count < BUFFER_SIZE || closed; })\<close>
  returns only at a state where the predicate holds; then \<open>if (closed) return false\<close>;
  otherwise the value is stored at \<open>buffer[in]\<close>, \<open>in\<close> advances modulo
  \<open>BUFFER_SIZE\<close> and \<open>count\<close> is incremented. Past the two tests \<open>count < BUFFER_SIZE\<close>
  holds, so \<open>++count\<close> cannot overflow, and \<open>in + 1\<close> cannot once \<open>in\<close> is a valid
  index.
\<close>

definition push :: "cbuf \<Rightarrow> cint \<Rightarrow> (bool \<times> cbuf) outcome" where
  "push q v =
     (if \<not> (count q <s BUFFER_SIZE \<or> closed q) then Suspended
      else if closed q then Returned (False, q)
      else if \<not> (0 \<le>s in_idx q \<and> in_idx q <s BUFFER_SIZE) then Undefined
      else Returned (True,
             q\<lparr>buffer := (buffer q)[nat (sint (in_idx q)) := v],
               in_idx := c_mod (in_idx q + 1) BUFFER_SIZE,
               count := count q + 1\<rparr>))"

text \<open>
  \<open>pop(int& value)\<close>: \<open>not_empty.wait(lock, [this] { return count > 0 || closed; })\<close>,
  then \<open>if (count == 0) return false\<close>, otherwise \<open>value = buffer[out]\<close>, \<open>out\<close>
  advances and \<open>count\<close> is decremented. The second argument is what the caller's
  variable holds before the call, the second component of the result what it holds
  after it.
\<close>

definition pop :: "cbuf \<Rightarrow> cint \<Rightarrow> (bool \<times> cint \<times> cbuf) outcome" where
  "pop q v =
     (if \<not> (0 <s count q \<or> closed q) then Suspended
      else if count q = 0 then Returned (False, v, q)
      else if \<not> (0 \<le>s out q \<and> out q <s BUFFER_SIZE) \<or> count q = INT_MIN then Undefined
      else Returned (True, buffer q ! nat (sint (out q)),
             q\<lparr>out := c_mod (out q + 1) BUFFER_SIZE,
               count := count q - 1\<rparr>))"

definition empty_q :: "cbuf \<Rightarrow> bool" where
  "empty_q q = (count q = 0)"

definition full :: "cbuf \<Rightarrow> bool" where
  "full q = (count q = BUFFER_SIZE)"

definition close :: "cbuf \<Rightarrow> cbuf" where
  "close q = q\<lparr>closed := True\<rparr>"

text \<open>\<open>size\<close> converts the signed \<open>count\<close> to \<open>size_t\<close>, which extends the sign.\<close>

definition size_q :: "cbuf \<Rightarrow> csize" where
  "size_q q = scast (count q)"

subsection \<open>Sequences of calls\<close>

text \<open>
  A call on the object and what it gave back. Since the critical sections exclude one
  another, an execution with any number of threads is, for the fields, the sequence of
  its calls in the order in which their critical sections ran; a call takes its place
  in that sequence at the state where its \<open>wait\<close> let it through. \<open>run\<close> plays such a
  sequence and stops with \<open>Suspended\<close> at a call that could not run there.
\<close>

datatype call = Push cint | Pop cint | Empty | Full | Close | Size

datatype ret = Pushed bool | Popped bool cint | IsEmpty bool | IsFull bool
  | CloseDone | SizeIs csize

fun exec :: "cbuf \<Rightarrow> call \<Rightarrow> (ret \<times> cbuf) outcome" where
  "exec q (Push v) = map_outcome (\<lambda>(b, q'). (Pushed b, q')) (push q v)"
| "exec q (Pop v) = map_outcome (\<lambda>(b, v', q'). (Popped b v', q')) (pop q v)"
| "exec q Empty = Returned (IsEmpty (empty_q q), q)"
| "exec q Full = Returned (IsFull (full q), q)"
| "exec q Close = Returned (CloseDone, close q)"
| "exec q Size = Returned (SizeIs (size_q q), q)"

fun run :: "cbuf \<Rightarrow> call list \<Rightarrow> (ret list \<times> cbuf) outcome" where
  "run q [] = Returned ([], q)"
| "run q (c # cs) =
     (case exec q c of
        Suspended \<Rightarrow> Suspended
      | Undefined \<Rightarrow> Undefined
      | Returned (r, q') \<Rightarrow> map_outcome (\<lambda>(rs, q''). (r # rs, q'')) (run q' cs))"

text \<open>The values of the accepted pushes, and the values the pops delivered, in order.\<close>

fun pushed :: "call list \<Rightarrow> ret list \<Rightarrow> cint list" where
  "pushed (Push v # cs) (Pushed True # rs) = v # pushed cs rs"
| "pushed (c # cs) (r # rs) = pushed cs rs"
| "pushed _ _ = []"

fun popped :: "ret list \<Rightarrow> cint list" where
  "popped (Popped True v # rs) = v # popped rs"
| "popped (r # rs) = popped rs"
| "popped [] = []"

subsection \<open>The held items and the representation invariant\<close>

text \<open>
  The items the ring holds, oldest first: \<open>count\<close> cells from \<open>out\<close> on, wrapping at
  \<open>BUFFER_SIZE\<close>.
\<close>

definition contents :: "cbuf \<Rightarrow> cint list" where
  "contents q =
     map (\<lambda>i. buffer q ! ((nat (sint (out q)) + i) mod 5)) [0..<nat (sint (count q))]"

definition ring_ok :: "cbuf \<Rightarrow> bool" where
  "ring_ok q \<longleftrightarrow>
     length (buffer q) = 5 \<and>
     0 \<le> sint (in_idx q) \<and> sint (in_idx q) < 5 \<and>
     0 \<le> sint (out q) \<and> sint (out q) < 5 \<and>
     0 \<le> sint (count q) \<and> sint (count q) \<le> 5 \<and>
     sint (in_idx q) = (sint (out q) + sint (count q)) mod 5"

section \<open>Machine arithmetic on the fields\<close>

lemma sint_BUFFER_SIZE: "sint BUFFER_SIZE = 5"
  by (simp add: BUFFER_SIZE_def)

lemma sint_succ: "sint (x::cint) < 5 \<Longrightarrow> sint (x + 1) = sint x + 1"
  apply (simp add: sint_word_add)
  apply (rule signed_take_bit_int_eq_self)
  using sint_ge[of x] apply simp
  apply simp
  done

lemma sint_pred: "0 < sint (x::cint) \<Longrightarrow> sint (x - 1) = sint x - 1"
  apply (simp add: sint_word_diff)
  apply (rule signed_take_bit_int_eq_self)
  apply simp
  using sint_lt[of x] apply simp
  done

lemma sint_next:
  assumes "0 \<le> sint (x::cint)" "sint x < 5"
  shows "sint (c_mod (x + 1) BUFFER_SIZE) = (sint x + 1) mod 5"
proof -
  have "sint (x + 1) = sint x + 1" using assms by (simp add: sint_succ)
  then have "sint (x + 1) smod sint BUFFER_SIZE = (sint x + 1) mod 5"
    using assms by (simp add: sint_BUFFER_SIZE smod_int_alt_def sgn_if)
  moreover have "sint (word_of_int ((sint x + 1) mod 5) :: cint) = (sint x + 1) mod 5"
    by (simp add: sint_sbintrunc' signed_take_bit_int_eq_self)
  ultimately show ?thesis by (simp add: c_mod_def)
qed

lemma sint_eq_0: "(x::cint) = 0 \<longleftrightarrow> sint x = 0"
  by (simp add: signed_eq_0_iff)

lemma push_cases:
  "push q v =
     (if closed q then Returned (False, q)
      else if \<not> sint (count q) < 5 then Suspended
      else if \<not> (0 \<le> sint (in_idx q) \<and> sint (in_idx q) < 5) then Undefined
      else Returned (True,
             q\<lparr>buffer := (buffer q)[nat (sint (in_idx q)) := v],
               in_idx := c_mod (in_idx q + 1) BUFFER_SIZE,
               count := count q + 1\<rparr>))"
  by (simp add: push_def word_sless_alt word_sle_eq sint_BUFFER_SIZE)

lemma sint_INT_MIN: "sint INT_MIN = - (2 ^ 31)"
  by (simp add: INT_MIN_def)

lemma pop_cases:
  "pop q v =
     (if \<not> (0 < sint (count q) \<or> closed q) then Suspended
      else if count q = 0 then Returned (False, v, q)
      else if \<not> (0 \<le> sint (out q) \<and> sint (out q) < 5) \<or> sint (count q) = - (2 ^ 31) then Undefined
      else Returned (True, buffer q ! nat (sint (out q)),
             q\<lparr>out := c_mod (out q + 1) BUFFER_SIZE,
               count := count q - 1\<rparr>))"
proof -
  have "count q = INT_MIN \<longleftrightarrow> sint (count q) = - (2 ^ 31)"
    using word_eq_iff_signed[of "count q" INT_MIN, where ?'a = int] by (simp add: sint_INT_MIN)
  then show ?thesis
    by (simp add: pop_def word_sless_alt word_sle_eq sint_BUFFER_SIZE)
qed

section \<open>The ring keeps its shape\<close>

text \<open>
  \<open>ring_ok\<close> holds of a new object and every call that returns keeps it; the held
  items grow at the tail on an accepted push and shrink at the head on a pop that
  delivers.
\<close>

lemma ring_ok_init: "ring_ok (ThreadSafeCircularBuffer mem)"
  by (simp add: ring_ok_def ThreadSafeCircularBuffer_def sint_BUFFER_SIZE)

lemma ring_ok_push:
  assumes "ring_ok q" "push q v = Returned (b, q')"
  shows "ring_ok q'"
proof (cases b)
  case False
  with assms show ?thesis by (auto simp: push_cases split: if_splits)
next
  case True
  with assms have c: "sint (count q) < 5" and i: "0 \<le> sint (in_idx q)" "sint (in_idx q) < 5"
    and q': "q' = q\<lparr>buffer := (buffer q)[nat (sint (in_idx q)) := v],
               in_idx := c_mod (in_idx q + 1) BUFFER_SIZE,
               count := count q + 1\<rparr>"
    by (auto simp: push_cases split: if_splits)
  have "sint (in_idx q') = (sint (in_idx q) + 1) mod 5"
    using i by (simp add: q' sint_next)
  moreover have "sint (count q') = sint (count q) + 1"
    using c by (simp add: q' sint_succ)
  moreover have "out q' = out q" "length (buffer q') = length (buffer q)"
    by (simp_all add: q')
  ultimately show ?thesis
    using assms(1) c unfolding ring_ok_def by (simp add: mod_simps add.assoc)
qed

lemma ring_ok_pop:
  assumes "ring_ok q" "pop q v = Returned (b, v', q')"
  shows "ring_ok q'"
proof (cases b)
  case False
  with assms show ?thesis by (auto simp: pop_cases split: if_splits)
next
  case True
  with assms have c: "0 < sint (count q)" and i: "0 \<le> sint (out q)" "sint (out q) < 5"
    and q': "q' = q\<lparr>out := c_mod (out q + 1) BUFFER_SIZE, count := count q - 1\<rparr>"
    using sint_eq_0[of "count q"] by (auto simp: pop_cases ring_ok_def split: if_splits)
  have "sint (out q') = (sint (out q) + 1) mod 5"
    using i by (simp add: q' sint_next)
  moreover have "sint (count q') = sint (count q) - 1"
    using c by (simp add: q' sint_pred)
  moreover have "in_idx q' = in_idx q" "length (buffer q') = length (buffer q)"
    by (simp_all add: q')
  ultimately show ?thesis
    using assms(1) c unfolding ring_ok_def by (simp add: mod_simps)
qed


lemma length_contents: "length (contents q) = nat (sint (count q))"
  by (simp add: contents_def)


lemma ring_index_distinct:
  assumes "i < n" "n < 5"
  shows "(h + i) mod 5 \<noteq> (h + n) mod (5::nat)"
proof
  assume "(h + i) mod 5 = (h + n) mod 5"
  then have "5 dvd (h + n) - (h + i)"
    using assms mod_eq_dvd_iff_nat[of "h + i" "h + n" 5] by simp
  then have "5 dvd n - i" by simp
  moreover have "0 < n - i" using assms by simp
  ultimately have "5 \<le> n - i" by (rule dvd_imp_le)
  then show False using assms by simp
qed

lemma contents_push:
  assumes "ring_ok q" "push q v = Returned (True, q')"
  shows "contents q' = contents q @ [v]"
proof -
  from assms have c: "sint (count q) < 5" and i: "0 \<le> sint (in_idx q)" "sint (in_idx q) < 5"
    and q': "q' = q\<lparr>buffer := (buffer q)[nat (sint (in_idx q)) := v],
               in_idx := c_mod (in_idx q + 1) BUFFER_SIZE,
               count := count q + 1\<rparr>"
    by (auto simp: push_cases split: if_splits)
  define n where "n = nat (sint (count q))"
  define h where "h = nat (sint (out q))"
  define k where "k = nat (sint (in_idx q))"
  have n: "n < 5" and c0: "0 \<le> sint (count q)"
    using c assms(1) by (simp_all add: n_def ring_ok_def)
  have k: "k = (h + n) mod 5"
    using assms(1) unfolding ring_ok_def k_def h_def n_def
    by (simp add: nat_add_distrib nat_mod_distrib)
  have len: "length (buffer q) = 5" using assms(1) by (simp add: ring_ok_def)
  have cnt: "nat (sint (count q')) = Suc n"
    using c c0 by (simp add: q' sint_succ n_def nat_add_distrib)
  have old: "(buffer q)[k := v] ! ((h + i) mod 5) = buffer q ! ((h + i) mod 5)" if "i < n" for i
  proof -
    have "(h + i) mod 5 \<noteq> (h + n) mod 5" using that n by (rule ring_index_distinct)
    then show ?thesis by (simp add: k)
  qed
  have new: "(buffer q)[k := v] ! ((h + n) mod 5) = v"
    by (simp add: k len)
  have fld: "buffer q' = (buffer q)[k := v]" "out q' = out q"
    by (simp_all add: q' k_def)
  have "contents q' = map (\<lambda>i. (buffer q)[k := v] ! ((h + i) mod 5)) [0..<Suc n]"
    by (simp add: contents_def cnt fld h_def del: upt_Suc)
  also have "\<dots> = map (\<lambda>i. buffer q ! ((h + i) mod 5)) [0..<n] @ [v]"
    by (simp add: old new)
  finally show ?thesis by (simp add: contents_def h_def n_def)
qed


lemma contents_pop:
  assumes "ring_ok q" "pop q x = Returned (True, v, q')"
  shows "contents q = v # contents q'"
proof -
  from assms have c: "0 < sint (count q)" and i: "0 \<le> sint (out q)" "sint (out q) < 5"
    and v: "v = buffer q ! nat (sint (out q))"
    and q': "q' = q\<lparr>out := c_mod (out q + 1) BUFFER_SIZE, count := count q - 1\<rparr>"
    using sint_eq_0[of "count q"] by (auto simp: pop_cases ring_ok_def split: if_splits)
  define n where "n = nat (sint (count q'))"
  define h where "h = nat (sint (out q))"
  have cnt: "nat (sint (count q)) = Suc n"
    using c by (simp add: n_def q' sint_pred)
  have h: "h < 5" using i by (simp add: h_def)
  have h': "nat (sint (out q')) = Suc h mod 5"
    using i by (simp add: q' sint_next h_def nat_mod_distrib nat_add_distrib)
  have "contents q = map (\<lambda>i. buffer q ! ((h + i) mod 5)) [0..<Suc n]"
    by (simp add: contents_def cnt h_def del: upt_Suc)
  also have "\<dots> = buffer q ! h # map (\<lambda>i. buffer q ! ((h + Suc i) mod 5)) [0..<n]"
    using h by (simp add: upt_conv_Cons map_Suc_upt[symmetric] del: upt_Suc)
  also have "map (\<lambda>i. buffer q ! ((h + Suc i) mod 5)) [0..<n] = contents q'"
  proof -
    have "buffer q' = buffer q" by (simp add: q')
    then show ?thesis by (simp add: contents_def n_def h' mod_simps)
  qed
  finally show ?thesis by (simp add: v h_def)
qed

section \<open>Calls and sequences of calls\<close>

lemma map_outcome_Returned:
  "map_outcome f x = Returned y \<longleftrightarrow> (\<exists>z. x = Returned z \<and> y = f z)"
  by (cases x) auto

lemma map_outcome_Undefined: "map_outcome f x = Undefined \<longleftrightarrow> x = Undefined"
  by (cases x) auto

lemma map_outcome_Suspended: "map_outcome f x = Suspended \<longleftrightarrow> x = Suspended"
  by (cases x) auto

lemma run_Cons_Returned:
  "run q (c # cs) = Returned (rs, q'') \<longleftrightarrow>
     (\<exists>r q' rs'. exec q c = Returned (r, q') \<and> run q' cs = Returned (rs', q'') \<and> rs = r # rs')"
  by (auto simp: map_outcome_Returned split: outcome.splits)

lemma run_append:
  "run q (cs @ ds) = Returned (rs, q'') \<longleftrightarrow>
     (\<exists>rs1 q' rs2. run q cs = Returned (rs1, q') \<and> run q' ds = Returned (rs2, q'') \<and> rs = rs1 @ rs2)"
proof (induction cs arbitrary: q rs)
  case Nil
  show ?case by simp
next
  case (Cons c cs)
  show ?case
    by (simp only: append_Cons run_Cons_Returned Cons.IH) (auto; blast)
qed

lemma length_run: "run q cs = Returned (rs, q') \<Longrightarrow> length rs = length cs"
  by (induction cs arbitrary: q rs) (auto simp: run_Cons_Returned simp del: run.simps(2))

lemma push_defined: "ring_ok q \<Longrightarrow> push q v \<noteq> Undefined"
  by (simp add: push_cases ring_ok_def)

lemma pop_defined: "ring_ok q \<Longrightarrow> pop q x \<noteq> Undefined"
  using sint_ge[of "count q"] by (auto simp add: pop_cases ring_ok_def)

lemma exec_defined: "ring_ok q \<Longrightarrow> exec q c \<noteq> Undefined"
  by (cases c) (simp_all add: map_outcome_Undefined push_defined pop_defined)

lemma ring_ok_close: "ring_ok q \<Longrightarrow> ring_ok (close q)"
  by (simp add: ring_ok_def close_def)

lemma ring_ok_exec: "ring_ok q \<Longrightarrow> exec q c = Returned (r, q') \<Longrightarrow> ring_ok q'"
  by (cases c) (auto simp: map_outcome_Returned ring_ok_close dest: ring_ok_push ring_ok_pop)

lemma ring_ok_run: "ring_ok q \<Longrightarrow> run q cs = Returned (rs, q') \<Longrightarrow> ring_ok q'"
  by (induction cs arbitrary: q rs) (auto simp: run_Cons_Returned simp del: run.simps(2) dest: ring_ok_exec)

lemma run_defined: "ring_ok q \<Longrightarrow> run q cs \<noteq> Undefined"
proof (induction cs arbitrary: q)
  case Nil
  show ?case by simp
next
  case (Cons c cs)
  show ?case
  proof (cases "exec q c")
    case Suspended
    then show ?thesis by simp
  next
    case Undefined
    with Cons.prems show ?thesis by (simp add: exec_defined)
  next
    case (Returned x)
    obtain r q' where x: "x = (r, q')" by (cases x)
    have "ring_ok q'" using Cons.prems Returned x by (auto dest: ring_ok_exec)
    then have "run q' cs \<noteq> Undefined" by (rule Cons.IH)
    then show ?thesis using Returned x by (simp add: map_outcome_Undefined)
  qed
qed

lemma contents_close: "contents (close q) = contents q"
  by (simp add: contents_def close_def)

lemma push_False: "push q v = Returned (False, q') \<Longrightarrow> q' = q"
  by (auto simp: push_cases split: if_splits)

lemma pop_False: "pop q x = Returned (False, v, q') \<Longrightarrow> q' = q \<and> v = x \<and> closed q \<and> count q = 0"
  by (auto simp: pop_cases signed_eq_0_iff split: if_splits)

lemma fifo_exec:
  assumes "ring_ok q" "exec q c = Returned (r, q')"
  shows "contents q @ pushed [c] [r] = popped [r] @ contents q'"
proof (cases c)
  case (Push v)
  then obtain b where r: "r = Pushed b" and p: "push q v = Returned (b, q')"
    using assms(2) by (auto simp: map_outcome_Returned)
  show ?thesis
  proof (cases b)
    case True
    then show ?thesis using contents_push[OF assms(1)] p r Push by simp
  next
    case False
    then show ?thesis using push_False p r Push by auto
  qed
next
  case (Pop x)
  then obtain b v where r: "r = Popped b v" and p: "pop q x = Returned (b, v, q')"
    using assms(2) by (auto simp: map_outcome_Returned)
  show ?thesis
  proof (cases b)
    case True
    then show ?thesis using contents_pop[OF assms(1)] p r Pop by simp
  next
    case False
    then show ?thesis using pop_False p r Pop by auto
  qed
qed (use assms(2) in \<open>auto simp: contents_close\<close>)

lemma pushed_Cons: "pushed (c # cs) (r # rs) = pushed [c] [r] @ pushed cs rs"
  by (cases "(c # cs, r # rs)" rule: pushed.cases) auto

lemma popped_Cons: "popped (r # rs) = popped [r] @ popped rs"
  by (cases "r # rs" rule: popped.cases) auto

lemma fifo_run:
  "ring_ok q \<Longrightarrow> run q cs = Returned (rs, q') \<Longrightarrow>
     contents q @ pushed cs rs = popped rs @ contents q'"
proof (induction cs arbitrary: q rs)
  case Nil
  then show ?case by simp
next
  case (Cons c cs)
  from Cons.prems(2) obtain r q1 rs' where
    e: "exec q c = Returned (r, q1)" and rn: "run q1 cs = Returned (rs', q')" and rs: "rs = r # rs'"
    by (auto simp: run_Cons_Returned simp del: run.simps(2))
  have ok1: "ring_ok q1" using Cons.prems(1) e by (rule ring_ok_exec)
  have "contents q @ pushed (c # cs) rs = (contents q @ pushed [c] [r]) @ pushed cs rs'"
    by (simp add: rs pushed_Cons[of c cs])
  also have "\<dots> = popped [r] @ (contents q1 @ pushed cs rs')"
    using fifo_exec[OF Cons.prems(1) e] by simp
  also have "\<dots> = popped [r] @ popped rs' @ contents q'"
    using Cons.IH[OF ok1 rn] by simp
  finally show ?case by (simp add: rs popped_Cons[of r rs'])
qed

lemma pop_value:
  assumes "ring_ok q" "0 < sint (count q)"
  shows "pop q x = Returned (True, buffer q ! nat (sint (out q)),
           q\<lparr>out := c_mod (out q + 1) BUFFER_SIZE, count := count q - 1\<rparr>)"
proof -
  have "count q \<noteq> 0" using assms(2) by auto
  then show ?thesis using assms by (simp add: pop_cases ring_ok_def)
qed

lemma pop_eos_iff:
  "(\<exists>v q'. pop q x = Returned (False, v, q')) \<longleftrightarrow> closed q \<and> count q = 0"
  by (auto simp: pop_cases signed_eq_0_iff)

lemma pop_eos: "closed q \<Longrightarrow> count q = 0 \<Longrightarrow> pop q x = Returned (False, x, q)"
  by (simp add: pop_def)

lemma closed_push: "push q v = Returned (b, q') \<Longrightarrow> closed q' = closed q"
  by (auto simp: push_cases split: if_splits)

lemma closed_pop: "pop q x = Returned (b, v, q') \<Longrightarrow> closed q' = closed q"
  by (auto simp: pop_cases split: if_splits)

lemma closed_exec: "closed q \<Longrightarrow> exec q c = Returned (r, q') \<Longrightarrow> closed q'"
  by (cases c) (auto simp: map_outcome_Returned close_def dest: closed_push closed_pop)

lemma closed_run: "closed q \<Longrightarrow> run q cs = Returned (rs, q') \<Longrightarrow> closed q'"
  by (induction cs arbitrary: q rs)
    (auto simp: run_Cons_Returned simp del: run.simps(2) dest: closed_exec)

lemma drained_exec:
  assumes "closed q" "count q = 0" "exec q c = Returned (r, q')"
  shows "closed q' \<and> count q' = 0"
proof (cases c)
  case (Push v)
  then show ?thesis using assms by (auto simp: map_outcome_Returned push_cases)
next
  case (Pop x)
  then show ?thesis using assms by (auto simp: map_outcome_Returned pop_def)
qed (use assms in \<open>auto simp: close_def\<close>)

lemma drained_run:
  "closed q \<Longrightarrow> count q = 0 \<Longrightarrow> run q cs = Returned (rs, q') \<Longrightarrow> closed q' \<and> count q' = 0"
proof (induction cs arbitrary: q rs)
  case Nil
  then show ?case by simp
next
  case (Cons c cs)
  from Cons.prems(3) obtain r q1 rs' where
    e: "exec q c = Returned (r, q1)" and rn: "run q1 cs = Returned (rs', q')"
    by (auto simp: run_Cons_Returned simp del: run.simps(2))
  have "closed q1 \<and> count q1 = 0" using Cons.prems(1,2) e by (rule drained_exec)
  then show ?case using Cons.IH rn by blast
qed

lemma eos_exec:
  assumes "exec q c = Returned (Popped False v, q')"
  shows "closed q' \<and> count q' = 0"
proof (cases c)
  case (Pop x)
  then have "pop q x = Returned (False, v, q')"
    using assms by (auto simp: map_outcome_Returned)
  then show ?thesis by (auto dest: pop_False)
qed (use assms in \<open>auto simp: map_outcome_Returned\<close>)

lemma eos_run:
  "run q cs = Returned (rs, q') \<Longrightarrow> Popped False v \<in> set rs \<Longrightarrow> closed q' \<and> count q' = 0"
proof (induction cs arbitrary: q rs)
  case Nil
  then show ?case by auto
next
  case (Cons c cs)
  from Cons.prems(1) obtain r q1 rs' where
    e: "exec q c = Returned (r, q1)" and rn: "run q1 cs = Returned (rs', q')" and rs: "rs = r # rs'"
    by (auto simp: run_Cons_Returned simp del: run.simps(2))
  show ?case
  proof (cases "r = Popped False v")
    case True
    then have "closed q1 \<and> count q1 = 0" using e by (auto dest: eos_exec)
    then show ?thesis using rn by (auto dest: drained_run)
  next
    case False
    then have "Popped False v \<in> set rs'" using Cons.prems(2) rs by simp
    then show ?thesis using Cons.IH rn by blast
  qed
qed

lemma drain_run:
  "ring_ok q \<Longrightarrow> closed q \<Longrightarrow> length xs = length (contents q) \<Longrightarrow>
     \<exists>q'. run q (map Pop xs) = Returned (map (Popped True) (contents q), q') \<and>
          closed q' \<and> count q' = 0"
proof (induction xs arbitrary: q)
  case Nil
  then have "sint (count q) = 0" by (simp add: length_contents ring_ok_def)
  then have "count q = 0" by (simp add: signed_eq_0_iff)
  then show ?case using Nil by (simp add: contents_def)
next
  case (Cons x xs)
  define q1 where "q1 = q\<lparr>out := c_mod (out q + 1) BUFFER_SIZE, count := count q - 1\<rparr>"
  define v where "v = buffer q ! nat (sint (out q))"
  have pos: "0 < sint (count q)" using Cons.prems(3) by (simp add: length_contents)
  have p: "pop q x = Returned (True, v, q1)"
    using pop_value[OF Cons.prems(1) pos] by (simp add: q1_def v_def)
  have c: "contents q = v # contents q1" using Cons.prems(1) p by (rule contents_pop)
  have ok1: "ring_ok q1" using Cons.prems(1) p by (rule ring_ok_pop)
  have cl1: "closed q1" using Cons.prems(2) by (simp add: q1_def)
  have len1: "length xs = length (contents q1)" using Cons.prems(3) c by simp
  from Cons.IH[OF ok1 cl1 len1] obtain q' where
    "run q1 (map Pop xs) = Returned (map (Popped True) (contents q1), q')"
    "closed q' \<and> count q' = 0" by blast
  then show ?case using p c by (simp add: map_outcome_Returned)
qed

lemma count_bound_exec:
  assumes "0 \<le> sint (count q)" "sint (count q) \<le> 5" "exec q c = Returned (r, q')"
  shows "0 \<le> sint (count q') \<and> sint (count q') \<le> 5"
proof (cases c)
  case (Push v)
  then obtain b where p: "push q v = Returned (b, q')"
    using assms(3) by (auto simp: map_outcome_Returned)
  then show ?thesis using assms(1,2)
    by (auto simp: push_cases sint_succ split: if_splits)
next
  case (Pop x)
  then obtain b v where p: "pop q x = Returned (b, v, q')"
    using assms(3) by (auto simp: map_outcome_Returned)
  have "count q \<noteq> 0 \<Longrightarrow> 0 < sint (count q)"
    using assms(1) sint_eq_0[of "count q"] by simp
  then show ?thesis using assms(1,2) p
    by (auto simp: pop_cases sint_pred split: if_splits)
qed (use assms in \<open>auto simp: close_def\<close>)

text \<open>Once \<open>closed\<close> is set, the predicates of both waits hold: no call sleeps.\<close>

lemma closed_never_suspends:
  "closed q \<Longrightarrow> push q v \<noteq> Suspended \<and> pop q x \<noteq> Suspended"
  by (simp add: push_def pop_def)

text \<open>
  From a new object no sequence of calls reaches undefined behaviour, and every state
  reached satisfies \<open>ring_ok\<close>.
\<close>

lemma ring_ok_reach: "run (ThreadSafeCircularBuffer mem) cs = Returned (rs, q) \<Longrightarrow> ring_ok q"
  using ring_ok_init by (rule ring_ok_run)

lemma run_reach_defined: "run (ThreadSafeCircularBuffer mem) cs \<noteq> Undefined"
  using ring_ok_init by (rule run_defined)

lemma contents_init: "contents (ThreadSafeCircularBuffer mem) = []"
  by (simp add: contents_def ThreadSafeCircularBuffer_def)

lemma push_Suspended_iff:
  "push q v = Suspended \<longleftrightarrow> \<not> closed q \<and> \<not> sint (count q) < 5"
  by (simp add: push_cases)

text \<open>Rules that evaluate the calls at concrete states.\<close>

lemma upt_5: "[0..<5] = [0, 1, 2, 3, 4]"
  by (simp add: upt_rec)

lemmas cbuf_eval = ThreadSafeCircularBuffer_def sint_BUFFER_SIZE upt_5 push_cases pop_cases
  c_mod_def smod_int_alt_def close_def full_def empty_q_def size_q_def BUFFER_SIZE_def

section \<open>The claims\<close>

subsection \<open>C1: first in, first out\<close>

text \<open>
  C1. FIFO order. For every sequence of calls on a new queue, the values of the accepted
  pushes are, in order, the values the pops have delivered followed by the items still
  held: pops deliver values in exactly the order in which they were pushed. In
  particular, after pushing 1, 2, 3 into a new (empty, open) queue, three pops return
  1, 2, 3 in that order, whatever the array and the callers' variables held before.
\<close>

theorem fifo_order:
  "(run (ThreadSafeCircularBuffer mem) cs = Returned (rs, q) \<longrightarrow>
      pushed cs rs = popped rs @ contents q) \<and>
   run (ThreadSafeCircularBuffer mem) [Push 1, Push 2, Push 3, Pop x, Pop y, Pop z] =
     Returned ([Pushed True, Pushed True, Pushed True,
                Popped True 1, Popped True 2, Popped True 3],
       \<lparr>buffer = [1, 2, 3, mem 3, mem 4], in_idx = 3, out = 3, count = 0, closed = False\<rparr>)"
proof
  show "run (ThreadSafeCircularBuffer mem) cs = Returned (rs, q) \<longrightarrow>
      pushed cs rs = popped rs @ contents q"
    using fifo_run[OF ring_ok_init, of mem cs rs q] by (simp add: contents_init)
next
  show "run (ThreadSafeCircularBuffer mem) [Push 1, Push 2, Push 3, Pop x, Pop y, Pop z] =
     Returned ([Pushed True, Pushed True, Pushed True,
                Popped True 1, Popped True 2, Popped True 3],
       \<lparr>buffer = [1, 2, 3, mem 3, mem 4], in_idx = 3, out = 3, count = 0, closed = False\<rparr>)"
    by (simp add: cbuf_eval)
qed

text \<open>A run with interleaved pushes and pops; one item is still held at the end.\<close>

theorem fifo_order_witness:
  "run (ThreadSafeCircularBuffer (\<lambda>_. 0)) [Push 7, Pop 0, Push 8, Push 9, Close, Pop 0] =
     Returned ([Pushed True, Popped True 7, Pushed True, Pushed True, CloseDone, Popped True 8],
       \<lparr>buffer = [7, 8, 9, 0, 0], in_idx = 3, out = 2, count = 1, closed = True\<rparr>) \<and>
   pushed [Push 7, Pop 0, Push 8, Push 9, Close, Pop 0]
     [Pushed True, Popped True 7, Pushed True, Pushed True, CloseDone, Popped True 8] =
   popped [Pushed True, Popped True 7, Pushed True, Pushed True, CloseDone, Popped True 8] @
   contents \<lparr>buffer = [7, 8, 9, 0, 0], in_idx = 3, out = 2, count = 1, closed = True\<rparr>"
proof -
  have r: "run (ThreadSafeCircularBuffer (\<lambda>_. 0)) [Push 7, Pop 0, Push 8, Push 9, Close, Pop 0] =
     Returned ([Pushed True, Popped True 7, Pushed True, Pushed True, CloseDone, Popped True 8],
       \<lparr>buffer = [7, 8, 9, 0, 0], in_idx = 3, out = 2, count = 1, closed = True\<rparr>)"
    by (simp add: cbuf_eval)
  show ?thesis
    using fifo_order[of "\<lambda>_. 0" "[Push 7, Pop 0, Push 8, Push 9, Close, Pop 0]"
        "[Pushed True, Popped True 7, Pushed True, Pushed True, CloseDone, Popped True 8]"
        "\<lparr>buffer = [7, 8, 9, 0, 0], in_idx = 3, out = 2, count = 1, closed = True\<rparr>"] r
    by blast
qed

subsection \<open>C2: what pop returns\<close>

text \<open>
  C2. Pop postcondition with drain precedence. In every state a queue can reach:
  \<^item> when \<open>count > 0\<close>, \<open>pop\<close> returns \<open>true\<close> with the head value \<open>buffer[out]\<close>, the
    held items lose their head, \<open>count\<close> goes down by one and \<open>closed\<close> is as before,
    whether the queue is closed or not;
  \<^item> \<open>pop\<close> returns \<open>false\<close> (end of stream) exactly when the queue is closed and
    \<open>count == 0\<close>;
  \<^item> in that state it returns at once (it is not suspended), leaving every field as it
    was;
  \<^item> after \<open>close\<close>, as many pops as there are held items deliver these items in
    order, and only the next pop returns \<open>false\<close>.
\<close>

theorem pop_postcondition:
  assumes "run (ThreadSafeCircularBuffer mem) cs = Returned (rs, q)"
  shows "(0 < sint (count q) \<longrightarrow>
            (\<exists>q'. pop q x = Returned (True, buffer q ! nat (sint (out q)), q') \<and>
                  buffer q ! nat (sint (out q)) = hd (contents q) \<and>
                  contents q' = tl (contents q) \<and>
                  sint (count q') = sint (count q) - 1 \<and>
                  closed q' = closed q)) \<and>
         ((\<exists>v q'. pop q x = Returned (False, v, q')) \<longleftrightarrow> closed q \<and> count q = 0) \<and>
         (closed q \<and> count q = 0 \<longrightarrow> pop q x = Returned (False, x, q)) \<and>
         (length xs = length (contents q) \<longrightarrow>
            (\<exists>q'. run (close q) (map Pop xs @ [Pop y]) =
                    Returned (map (Popped True) (contents q) @ [Popped False y], q')))"
proof (intro conjI impI)
  have ok: "ring_ok q" using assms by (rule ring_ok_reach)
  {
    assume pos: "0 < sint (count q)"
    define q' where "q' = q\<lparr>out := c_mod (out q + 1) BUFFER_SIZE, count := count q - 1\<rparr>"
    have p: "pop q x = Returned (True, buffer q ! nat (sint (out q)), q')"
      using pop_value[OF ok pos] by (simp add: q'_def)
    have c: "contents q = buffer q ! nat (sint (out q)) # contents q'"
      using ok p by (rule contents_pop)
    have "sint (count q') = sint (count q) - 1"
      using pos by (simp add: q'_def sint_pred)
    moreover have "closed q' = closed q" by (simp add: q'_def)
    ultimately show "\<exists>q'. pop q x = Returned (True, buffer q ! nat (sint (out q)), q') \<and>
                  buffer q ! nat (sint (out q)) = hd (contents q) \<and>
                  contents q' = tl (contents q) \<and>
                  sint (count q') = sint (count q) - 1 \<and>
                  closed q' = closed q"
      using p c by auto
  }
  show "(\<exists>v q'. pop q x = Returned (False, v, q')) \<longleftrightarrow> closed q \<and> count q = 0"
    by (rule pop_eos_iff)
  {
    assume "closed q \<and> count q = 0"
    then show "pop q x = Returned (False, x, q)" by (simp add: pop_eos)
  }
  {
    assume len: "length xs = length (contents q)"
    have "ring_ok (close q)" "closed (close q)" "length xs = length (contents (close q))"
      using ok len by (simp_all add: ring_ok_close contents_close) (simp add: close_def)
    from drain_run[OF this] obtain q' where
      r: "run (close q) (map Pop xs) = Returned (map (Popped True) (contents q), q')"
      and d: "closed q' \<and> count q' = 0"
      by (auto simp: contents_close)
    have "run q' [Pop y] = Returned ([Popped False y], q')"
      using d by (simp add: pop_eos)
    with r show "\<exists>q'. run (close q) (map Pop xs @ [Pop y]) =
                    Returned (map (Popped True) (contents q) @ [Popped False y], q')"
      unfolding run_append by blast
  }
qed

text \<open>A queue holding 8 and 9: pop delivers 8; closed, it delivers 8, 9, then end of stream.\<close>

theorem pop_postcondition_witness:
  "run (ThreadSafeCircularBuffer (\<lambda>_. 0)) [Push 7, Push 8, Pop 0, Push 9] =
     Returned ([Pushed True, Pushed True, Popped True 7, Pushed True],
       \<lparr>buffer = [7, 8, 9, 0, 0], in_idx = 3, out = 1, count = 2, closed = False\<rparr>) \<and>
   pop \<lparr>buffer = [7, 8, 9, 0, 0], in_idx = 3, out = 1, count = 2, closed = False\<rparr> 0 =
     Returned (True, 8,
       \<lparr>buffer = [7, 8, 9, 0, 0], in_idx = 3, out = 2, count = 1, closed = False\<rparr>) \<and>
   run (close \<lparr>buffer = [7, 8, 9, 0, 0], in_idx = 3, out = 1, count = 2, closed = False\<rparr>)
       [Pop 0, Pop 0, Pop 5] =
     Returned ([Popped True 8, Popped True 9, Popped False 5],
       \<lparr>buffer = [7, 8, 9, 0, 0], in_idx = 3, out = 3, count = 0, closed = True\<rparr>)"
proof -
  have r: "run (ThreadSafeCircularBuffer (\<lambda>_. 0)) [Push 7, Push 8, Pop 0, Push 9] =
     Returned ([Pushed True, Pushed True, Popped True 7, Pushed True],
       \<lparr>buffer = [7, 8, 9, 0, 0], in_idx = 3, out = 1, count = 2, closed = False\<rparr>)"
    by (simp add: cbuf_eval)
  show ?thesis
    using r pop_postcondition[OF r, of 0 "[0, 0]" 5]
    by (simp add: cbuf_eval contents_def)
qed

subsection \<open>C3: push on a closed queue\<close>

text \<open>
  C3. Closed-push rejection is atomic: in every state whose flag \<open>closed\<close> is set,
  \<open>push\<close> returns \<open>false\<close> and every field (the array, \<open>in\<close>, \<open>out\<close>, \<open>count\<close>,
  \<open>closed\<close>) is as before, whatever \<open>count\<close> is.
\<close>

theorem push_closed_rejected:
  "closed q \<Longrightarrow> push q v = Returned (False, q)"
  by (simp add: push_def)

text \<open>A closed queue that holds three items, so that \<open>count < BUFFER_SIZE\<close>.\<close>

theorem push_closed_rejected_witness:
  "closed \<lparr>buffer = [7, 8, 9, 0, 0], in_idx = 3, out = 0, count = 3, closed = True\<rparr> \<and>
   push \<lparr>buffer = [7, 8, 9, 0, 0], in_idx = 3, out = 0, count = 3, closed = True\<rparr> 4 =
     Returned (False,
       \<lparr>buffer = [7, 8, 9, 0, 0], in_idx = 3, out = 0, count = 3, closed = True\<rparr>)"
  using push_closed_rejected
    [of "\<lparr>buffer = [7, 8, 9, 0, 0], in_idx = 3, out = 0, count = 3, closed = True\<rparr>" 4]
  by simp

subsection \<open>C4: the bound on count\<close>

text \<open>
  C4. Capacity-bound invariant. \<open>0 <= count <= BUFFER_SIZE\<close> holds of a new queue; every
  call (\<open>push\<close>, \<open>pop\<close>, \<open>empty\<close>, \<open>full\<close>, \<open>close\<close>, \<open>size\<close>) that returns from a
  state where it holds leaves a state where it holds, so a push never takes \<open>count\<close>
  past the capacity; hence it holds in every state a queue can reach.
\<close>

theorem capacity_bound:
  "(0 \<le>s count (ThreadSafeCircularBuffer mem) \<and>
    count (ThreadSafeCircularBuffer mem) \<le>s BUFFER_SIZE) \<and>
   (0 \<le>s count q \<and> count q \<le>s BUFFER_SIZE \<and> exec q c = Returned (r, q') \<longrightarrow>
      0 \<le>s count q' \<and> count q' \<le>s BUFFER_SIZE) \<and>
   (run (ThreadSafeCircularBuffer mem) cs = Returned (rs, q'') \<longrightarrow>
      0 \<le>s count q'' \<and> count q'' \<le>s BUFFER_SIZE)"
proof (intro conjI impI)
  show "0 \<le>s count (ThreadSafeCircularBuffer mem)"
    "count (ThreadSafeCircularBuffer mem) \<le>s BUFFER_SIZE"
    by (simp_all add: ThreadSafeCircularBuffer_def word_sle_eq sint_BUFFER_SIZE)
next
  assume a: "0 \<le>s count q \<and> count q \<le>s BUFFER_SIZE \<and> exec q c = Returned (r, q')"
  then have "0 \<le> sint (count q') \<and> sint (count q') \<le> 5"
    using count_bound_exec[of q c r q'] by (simp add: word_sle_eq sint_BUFFER_SIZE)
  then show "0 \<le>s count q'" "count q' \<le>s BUFFER_SIZE"
    by (simp_all add: word_sle_eq sint_BUFFER_SIZE)
next
  assume "run (ThreadSafeCircularBuffer mem) cs = Returned (rs, q'')"
  then have "ring_ok q''" by (rule ring_ok_reach)
  then show "0 \<le>s count q''" "count q'' \<le>s BUFFER_SIZE"
    by (simp_all add: ring_ok_def word_sle_eq sint_BUFFER_SIZE)
qed

text \<open>The fifth push fills the queue and keeps the bound; a sixth would wait.\<close>

theorem capacity_bound_witness:
  "0 \<le>s count \<lparr>buffer = [1, 2, 3, 4, 0], in_idx = 4, out = 0, count = 4, closed = False\<rparr> \<and>
   count \<lparr>buffer = [1, 2, 3, 4, 0], in_idx = 4, out = 0, count = 4, closed = False\<rparr>
     \<le>s BUFFER_SIZE \<and>
   exec \<lparr>buffer = [1, 2, 3, 4, 0], in_idx = 4, out = 0, count = 4, closed = False\<rparr> (Push 5) =
     Returned (Pushed True,
       \<lparr>buffer = [1, 2, 3, 4, 5], in_idx = 0, out = 0, count = 5, closed = False\<rparr>) \<and>
   0 \<le>s count \<lparr>buffer = [1, 2, 3, 4, 5], in_idx = 0, out = 0, count = 5, closed = False\<rparr> \<and>
   count \<lparr>buffer = [1, 2, 3, 4, 5], in_idx = 0, out = 0, count = 5, closed = False\<rparr>
     \<le>s BUFFER_SIZE \<and>
   push \<lparr>buffer = [1, 2, 3, 4, 5], in_idx = 0, out = 0, count = 5, closed = False\<rparr> 6 =
     Suspended"
  using capacity_bound
    [of "\<lambda>_. 0"
      "\<lparr>buffer = [1, 2, 3, 4, 0], in_idx = 4, out = 0, count = 4, closed = False\<rparr>"
      "Push 5" "Pushed True"
      "\<lparr>buffer = [1, 2, 3, 4, 5], in_idx = 0, out = 0, count = 5, closed = False\<rparr>"
      "[]" "[]" "ThreadSafeCircularBuffer (\<lambda>_. 0)"]
  by (simp add: cbuf_eval word_sle_eq)

subsection \<open>C5: no item is lost\<close>

text \<open>
  C5. No item loss. After every sequence of calls on a new queue, the number of accepted
  pushes minus the number of pops that delivered a value is \<open>count\<close>; and if some pop
  of the sequence has returned end of stream, the values delivered are exactly the values
  accepted, in the same order, so there are as many of the ones as of the others: no
  value is dropped and none is delivered twice.
\<close>

theorem no_item_loss:
  assumes "run (ThreadSafeCircularBuffer mem) cs = Returned (rs, q)"
  shows "int (length (pushed cs rs)) - int (length (popped rs)) = sint (count q) \<and>
         ((\<exists>v. Popped False v \<in> set rs) \<longrightarrow>
            popped rs = pushed cs rs \<and> length (popped rs) = length (pushed cs rs))"
proof -
  have ok: "ring_ok q" using assms by (rule ring_ok_reach)
  have f: "pushed cs rs = popped rs @ contents q"
    using fifo_run[OF ring_ok_init assms] by (simp add: contents_init)
  have "0 \<le> sint (count q)" using ok by (simp add: ring_ok_def)
  then have "int (length (contents q)) = sint (count q)" by (simp add: length_contents)
  then have 1: "int (length (pushed cs rs)) - int (length (popped rs)) = sint (count q)"
    by (simp add: f)
  have 2: "popped rs = pushed cs rs" if "Popped False v \<in> set rs" for v
  proof -
    have "count q = 0" using eos_run[OF assms that] by simp
    then have "contents q = []" by (simp add: contents_def)
    then show ?thesis by (simp add: f)
  qed
  from 1 2 show ?thesis by auto
qed

text \<open>Two accepted pushes, one rejected after \<open>close\<close>, two deliveries, end of stream.\<close>

theorem no_item_loss_witness:
  "run (ThreadSafeCircularBuffer (\<lambda>_. 0)) [Push 7, Push 8, Pop 0, Close, Push 9, Pop 0, Pop 3] =
     Returned ([Pushed True, Pushed True, Popped True 7, CloseDone, Pushed False,
                Popped True 8, Popped False 3],
       \<lparr>buffer = [7, 8, 0, 0, 0], in_idx = 2, out = 2, count = 0, closed = True\<rparr>) \<and>
   Popped False 3 \<in> set [Pushed True, Pushed True, Popped True 7, CloseDone, Pushed False,
                Popped True 8, Popped False 3] \<and>
   pushed [Push 7, Push 8, Pop 0, Close, Push 9, Pop 0, Pop 3]
     [Pushed True, Pushed True, Popped True 7, CloseDone, Pushed False,
      Popped True 8, Popped False 3] = [7, 8] \<and>
   popped [Pushed True, Pushed True, Popped True 7, CloseDone, Pushed False,
      Popped True 8, Popped False 3] = [7, 8]"
proof -
  have r: "run (ThreadSafeCircularBuffer (\<lambda>_. 0))
      [Push 7, Push 8, Pop 0, Close, Push 9, Pop 0, Pop 3] =
     Returned ([Pushed True, Pushed True, Popped True 7, CloseDone, Pushed False,
                Popped True 8, Popped False 3],
       \<lparr>buffer = [7, 8, 0, 0, 0], in_idx = 2, out = 2, count = 0, closed = True\<rparr>)"
    by (simp add: cbuf_eval)
  show ?thesis
    using r no_item_loss[OF r] by simp
qed

subsection \<open>C6: close writes the flag only\<close>

text \<open>
  C6. In every state, \<open>close\<close> leaves the array, \<open>in\<close>, \<open>out\<close> and \<open>count\<close> as they
  were and sets \<open>closed\<close>; the held items are the same, and a pop that delivered a value
  before \<open>close\<close> delivers the same value after it. On a queue that is closed already,
  \<open>close\<close> changes nothing.
\<close>

theorem close_frame:
  "buffer (close q) = buffer q \<and> in_idx (close q) = in_idx q \<and> out (close q) = out q \<and>
   count (close q) = count q \<and> closed (close q) \<and> contents (close q) = contents q \<and>
   (pop q x = Returned (True, v, q') \<longrightarrow> pop (close q) x = Returned (True, v, close q')) \<and>
   (closed q \<longrightarrow> close q = q) \<and> close (close q) = close q"
proof -
  have "pop (close q) x = Returned (True, v, close q')" if "pop q x = Returned (True, v, q')"
    using that by (auto simp: pop_cases close_def split: if_splits)
  then show ?thesis by (simp add: close_def contents_def)
qed

text \<open>An open queue holding 8 and 9, and the same queue closed.\<close>

theorem close_frame_witness:
  "close \<lparr>buffer = [7, 8, 9, 0, 0], in_idx = 3, out = 1, count = 2, closed = False\<rparr> =
     \<lparr>buffer = [7, 8, 9, 0, 0], in_idx = 3, out = 1, count = 2, closed = True\<rparr> \<and>
   pop \<lparr>buffer = [7, 8, 9, 0, 0], in_idx = 3, out = 1, count = 2, closed = False\<rparr> 0 =
     Returned (True, 8,
       \<lparr>buffer = [7, 8, 9, 0, 0], in_idx = 3, out = 2, count = 1, closed = False\<rparr>) \<and>
   pop (close \<lparr>buffer = [7, 8, 9, 0, 0], in_idx = 3, out = 1, count = 2, closed = False\<rparr>) 0 =
     Returned (True, 8,
       \<lparr>buffer = [7, 8, 9, 0, 0], in_idx = 3, out = 2, count = 1, closed = True\<rparr>) \<and>
   closed \<lparr>buffer = [7, 8, 9, 0, 0], in_idx = 3, out = 1, count = 2, closed = True\<rparr> \<and>
   close \<lparr>buffer = [7, 8, 9, 0, 0], in_idx = 3, out = 1, count = 2, closed = True\<rparr> =
     \<lparr>buffer = [7, 8, 9, 0, 0], in_idx = 3, out = 1, count = 2, closed = True\<rparr>"
  using close_frame
    [of "\<lparr>buffer = [7, 8, 9, 0, 0], in_idx = 3, out = 1, count = 2, closed = False\<rparr>" 0 8
      "\<lparr>buffer = [7, 8, 9, 0, 0], in_idx = 3, out = 2, count = 1, closed = False\<rparr>"]
    close_frame
    [of "\<lparr>buffer = [7, 8, 9, 0, 0], in_idx = 3, out = 1, count = 2, closed = True\<rparr>"]
  by (simp add: cbuf_eval)

subsection \<open>C7: closed stays closed\<close>

text \<open>
  C7. Closed-monotonicity. No call resets \<open>closed\<close>: from a state where it is set,
  every call that returns, and every sequence of calls, ends in a state where it is
  set. So whenever a sequence of calls on a new queue has reached a closed state, every
  continuation of that sequence ends in a closed state.
\<close>

theorem closed_monotone:
  "(closed q \<and> exec q c = Returned (r, q') \<longrightarrow> closed q') \<and>
   (closed q \<and> run q cs = Returned (rs, q'') \<longrightarrow> closed q'') \<and>
   (run (ThreadSafeCircularBuffer mem) ds = Returned (rs1, q1) \<and> closed q1 \<and>
    run (ThreadSafeCircularBuffer mem) (ds @ es) = Returned (rs2, q2) \<longrightarrow> closed q2)"
proof (intro conjI impI)
  assume "closed q \<and> exec q c = Returned (r, q')"
  then show "closed q'" by (auto dest: closed_exec)
next
  assume "closed q \<and> run q cs = Returned (rs, q'')"
  then show "closed q''" by (auto dest: closed_run)
next
  assume a: "run (ThreadSafeCircularBuffer mem) ds = Returned (rs1, q1) \<and> closed q1 \<and>
    run (ThreadSafeCircularBuffer mem) (ds @ es) = Returned (rs2, q2)"
  then obtain rs3 where "run q1 es = Returned (rs3, q2)"
    unfolding run_append by auto
  with a show "closed q2" by (auto dest: closed_run)
qed

text \<open>After \<open>close\<close>, one call of each kind; the flag is still set.\<close>

theorem closed_monotone_witness:
  "run (ThreadSafeCircularBuffer (\<lambda>_. 0)) [Push 7, Close] =
     Returned ([Pushed True, CloseDone],
       \<lparr>buffer = [7, 0, 0, 0, 0], in_idx = 1, out = 0, count = 1, closed = True\<rparr>) \<and>
   run (ThreadSafeCircularBuffer (\<lambda>_. 0))
       ([Push 7, Close] @ [Push 8, Size, Empty, Full, Pop 0, Pop 0, Close]) =
     Returned ([Pushed True, CloseDone, Pushed False, SizeIs 1, IsEmpty False, IsFull False,
                Popped True 7, Popped False 0, CloseDone],
       \<lparr>buffer = [7, 0, 0, 0, 0], in_idx = 1, out = 1, count = 0, closed = True\<rparr>) \<and>
   closed \<lparr>buffer = [7, 0, 0, 0, 0], in_idx = 1, out = 1, count = 0, closed = True\<rparr>"
  using closed_monotone
    [of "\<lparr>buffer = [7, 0, 0, 0, 0], in_idx = 1, out = 0, count = 1, closed = True\<rparr>"
      "Push 8" "Pushed False"
      "\<lparr>buffer = [7, 0, 0, 0, 0], in_idx = 1, out = 0, count = 1, closed = True\<rparr>"
      "[Push 8, Size, Empty, Full, Pop 0, Pop 0, Close]"
      "[Pushed False, SizeIs 1, IsEmpty False, IsFull False,
                Popped True 7, Popped False 0, CloseDone]"
      "\<lparr>buffer = [7, 0, 0, 0, 0], in_idx = 1, out = 1, count = 0, closed = True\<rparr>"
      "\<lambda>_. 0" "[Push 7, Close]" "[Pushed True, CloseDone]"
      "\<lparr>buffer = [7, 0, 0, 0, 0], in_idx = 1, out = 0, count = 1, closed = True\<rparr>"
      "[Push 8, Size, Empty, Full, Pop 0, Pop 0, Close]"
      "[Pushed True, CloseDone, Pushed False, SizeIs 1, IsEmpty False, IsFull False,
                Popped True 7, Popped False 0, CloseDone]"
      "\<lparr>buffer = [7, 0, 0, 0, 0], in_idx = 1, out = 1, count = 0, closed = True\<rparr>"]
  by (simp add: cbuf_eval)

subsection \<open>C8: the capacity\<close>

text \<open>
  C8 has the capacity supplied by the caller at construction, with a failure for a
  capacity that is not positive. The class has no such argument: the array is declared
  \<open>int buffer[BUFFER_SIZE]\<close> with \<open>#define BUFFER_SIZE 5\<close>, and \<open>push\<close> and \<open>full\<close>
  compare \<open>count\<close> with that macro. A caller who wants capacity 2 (as in the scenario
  \<open>capacity=2; push(A); push(B); push(C) blocks\<close>) gets a queue that is not full after two
  pushes and accepts the third at once.
\<close>

theorem construction_capacity_counterexample:
  "run (ThreadSafeCircularBuffer (\<lambda>_. 0)) [Push 1, Push 2, Full, Push 3] =
     Returned ([Pushed True, Pushed True, IsFull False, Pushed True],
       \<lparr>buffer = [1, 2, 3, 0, 0], in_idx = 3, out = 0, count = 3, closed = False\<rparr>)"
  by (simp add: cbuf_eval)

text \<open>
  C8, amended. The capacity is the compile-time constant \<open>BUFFER_SIZE = 5\<close>, the same
  for every object and fixed for its lifetime: a new queue, whatever its memory held,
  accepts five pushes, is then full and suspends a sixth; and in every state a queue
  can reach the array has five cells, \<open>count <= 5\<close>, \<open>full\<close> holds exactly when
  \<open>count == 5\<close>, and \<open>push\<close> is suspended exactly when the queue is open and
  \<open>count == 5\<close>. Construction takes no capacity and has no failure.
\<close>

theorem capacity_fixed:
  "BUFFER_SIZE = 5 \<and>
   run (ThreadSafeCircularBuffer mem) [Push a, Push b, Push c, Push d, Push e, Full] =
     Returned ([Pushed True, Pushed True, Pushed True, Pushed True, Pushed True, IsFull True],
       \<lparr>buffer = [a, b, c, d, e], in_idx = 0, out = 0, count = 5, closed = False\<rparr>) \<and>
   push \<lparr>buffer = [a, b, c, d, e], in_idx = 0, out = 0, count = 5, closed = False\<rparr> v =
     Suspended \<and>
   (run (ThreadSafeCircularBuffer mem) cs = Returned (rs, q) \<longrightarrow>
      length (buffer q) = 5 \<and> count q \<le>s BUFFER_SIZE \<and>
      (full q \<longleftrightarrow> count q = BUFFER_SIZE) \<and>
      (push q v = Suspended \<longleftrightarrow> \<not> closed q \<and> count q = BUFFER_SIZE))"
proof (intro conjI impI)
  show "BUFFER_SIZE = 5" by (simp add: BUFFER_SIZE_def)
  show "run (ThreadSafeCircularBuffer mem) [Push a, Push b, Push c, Push d, Push e, Full] =
     Returned ([Pushed True, Pushed True, Pushed True, Pushed True, Pushed True, IsFull True],
       \<lparr>buffer = [a, b, c, d, e], in_idx = 0, out = 0, count = 5, closed = False\<rparr>)"
    by (simp add: cbuf_eval)
  show "push \<lparr>buffer = [a, b, c, d, e], in_idx = 0, out = 0, count = 5, closed = False\<rparr> v =
     Suspended"
    by (simp add: cbuf_eval)
next
  assume "run (ThreadSafeCircularBuffer mem) cs = Returned (rs, q)"
  then have ok: "ring_ok q" by (rule ring_ok_reach)
  have eq: "count q = BUFFER_SIZE \<longleftrightarrow> sint (count q) = 5"
    using word_eq_iff_signed[of "count q" BUFFER_SIZE, where ?'a = int]
    by (simp add: sint_BUFFER_SIZE)
  show "length (buffer q) = 5" using ok by (simp add: ring_ok_def)
  show "count q \<le>s BUFFER_SIZE" using ok by (simp add: ring_ok_def word_sle_eq sint_BUFFER_SIZE)
  show "full q \<longleftrightarrow> count q = BUFFER_SIZE" by (simp add: full_def)
  show "push q v = Suspended \<longleftrightarrow> \<not> closed q \<and> count q = BUFFER_SIZE"
    using ok by (auto simp: push_Suspended_iff eq ring_ok_def)
qed

text \<open>A queue that wrapped around: full at five items, and a push then waits.\<close>

theorem capacity_fixed_witness:
  "run (ThreadSafeCircularBuffer (\<lambda>_. 0)) [Push 1, Push 2, Pop 0, Push 3, Push 4, Push 5, Push 6] =
     Returned ([Pushed True, Pushed True, Popped True 1, Pushed True, Pushed True, Pushed True,
                Pushed True],
       \<lparr>buffer = [6, 2, 3, 4, 5], in_idx = 1, out = 1, count = 5, closed = False\<rparr>) \<and>
   full \<lparr>buffer = [6, 2, 3, 4, 5], in_idx = 1, out = 1, count = 5, closed = False\<rparr> \<and>
   push \<lparr>buffer = [6, 2, 3, 4, 5], in_idx = 1, out = 1, count = 5, closed = False\<rparr> 7 =
     Suspended"
proof -
  have r: "run (ThreadSafeCircularBuffer (\<lambda>_. 0))
      [Push 1, Push 2, Pop 0, Push 3, Push 4, Push 5, Push 6] =
     Returned ([Pushed True, Pushed True, Popped True 1, Pushed True, Pushed True, Pushed True,
                Pushed True],
       \<lparr>buffer = [6, 2, 3, 4, 5], in_idx = 1, out = 1, count = 5, closed = False\<rparr>)"
    by (simp add: cbuf_eval)
  have "full \<lparr>buffer = [6, 2, 3, 4, 5], in_idx = 1, out = 1, count = 5, closed = False\<rparr> =
          (count \<lparr>buffer = [6, 2, 3, 4, 5], in_idx = 1, out = 1, count = 5, closed = False\<rparr> =
           BUFFER_SIZE) \<and>
        (push \<lparr>buffer = [6, 2, 3, 4, 5], in_idx = 1, out = 1, count = 5, closed = False\<rparr> 7 =
           Suspended) =
          (\<not> closed \<lparr>buffer = [6, 2, 3, 4, 5], in_idx = 1, out = 1, count = 5, closed = False\<rparr> \<and>
           count \<lparr>buffer = [6, 2, 3, 4, 5], in_idx = 1, out = 1, count = 5, closed = False\<rparr> =
           BUFFER_SIZE)"
    using r capacity_fixed[of "\<lambda>_. 0" 1 2 3 4 5 7
        "[Push 1, Push 2, Pop 0, Push 3, Push 4, Push 5, Push 6]"
        "[Pushed True, Pushed True, Popped True 1, Pushed True, Pushed True, Pushed True,
                Pushed True]"
        "\<lparr>buffer = [6, 2, 3, 4, 5], in_idx = 1, out = 1, count = 5, closed = False\<rparr>"]
    by blast
  then show ?thesis
    using r by (simp add: BUFFER_SIZE_def)
qed

subsection \<open>C10: the out-parameter at end of stream\<close>

text \<open>
  C10. When \<open>pop\<close> returns \<open>false\<close>, the caller's variable holds what it held before the
  call (and the queue is as before): \<open>pop\<close> assigns to \<open>value\<close> only on the path that
  returns \<open>true\<close>.
\<close>

theorem pop_end_of_stream_keeps_value:
  "pop q x = Returned (False, v, q') \<Longrightarrow> v = x \<and> q' = q"
  by (auto dest: pop_False)

text \<open>A closed, drained queue and a caller's variable holding 42.\<close>

theorem pop_end_of_stream_keeps_value_witness:
  "pop \<lparr>buffer = [7, 8, 9, 0, 0], in_idx = 3, out = 3, count = 0, closed = True\<rparr> 42 =
     Returned (False, 42,
       \<lparr>buffer = [7, 8, 9, 0, 0], in_idx = 3, out = 3, count = 0, closed = True\<rparr>)"
proof -
  have "\<exists>v q'. pop \<lparr>buffer = [7, 8, 9, 0, 0], in_idx = 3, out = 3, count = 0, closed = True\<rparr> 42
     = Returned (False, v, q')"
    by (simp add: pop_def)
  then obtain v q' where
    p: "pop \<lparr>buffer = [7, 8, 9, 0, 0], in_idx = 3, out = 3, count = 0, closed = True\<rparr> 42 =
      Returned (False, v, q')" by blast
  from pop_end_of_stream_keeps_value[OF p] p show ?thesis by simp
qed

end
